theory Spec2Isabelle
  imports Complex_Main "HOL-Library.AList"
begin

section \<open>Data model of scte35_inserter.py\<close>

text \<open>
  The dataclass \<open>StreamConfig\<close>. Durations are Python ints (seconds).
\<close>

record StreamConfig =
  stream_id :: string
  input_url :: string
  output_path :: string
  ad_duration :: int
  ad_interval :: int
  enabled :: bool

text \<open>
  The dataclass \<open>SCTE35Marker\<close>. The field \<open>event_id\<close> is annotated \<open>int\<close> in the
  source, but \<open>_insert_cue_in\<close> passes \<open>self.ad_break_event_id\<close>, an \<open>Optional[int]\<close>,
  so the model keeps the option. Timestamps are Python floats; they are only added,
  subtracted and compared, and are read here as real numbers.
\<close>

record SCTE35Marker =
  pts :: real
  duration :: int
  event_id :: "int option"

text \<open>
  The binary encoding is the work of the external library \<open>threefive\<close>. A cue keeps
  what \<open>_create_cue\<close> hands to it: the segmentation type id (0x34 for
  \<open>encode_out_as_base64\<close>, 0x35 for \<open>encode_in_as_base64\<close>), the message and the marker.
\<close>

datatype cue = Cue (segmentation_type_id: nat) (segmentation_message: string) (cue_marker: SCTE35Marker)

definition encode_out :: "SCTE35Marker \<Rightarrow> cue" where
  "encode_out m = Cue 0x34 ''Start Ad Break'' m"

definition encode_in :: "SCTE35Marker \<Rightarrow> cue" where
  "encode_in m = Cue 0x35 ''End Ad Break'' m"

text \<open>
  A custom tag of a segment: \<open>#EXT-X-SCTE35:CUE="..."\<close> around an encoded cue, the
  literal \<open>#EXT-X-CUE-IN\<close>, or any other text already attached to the segment.
\<close>

datatype tag = SCTE35_tag cue | CUE_IN_tag | Other_tag string

record segment =
  uri :: string
  custom_tags :: "tag list"

record playlist =
  segments :: "segment list"
  target_duration :: "real option"

text \<open>The fields of \<open>HLSProcessor\<close>; \<open>stop_event\<close> is the flag of \<open>threading.Event\<close>.\<close>

record HLSProcessor =
  config :: StreamConfig
  running :: bool
  segments_processed :: nat
  stop_event :: bool
  in_ad_break :: bool
  ad_break_event_id :: "int option"
  ad_break_start_time :: "real option"
  next_marker_time :: real

text \<open>
  The readings of \<open>time.time()\<close> taken during one call of the marker step: \<open>now\<close> at
  the top of \<open>_process_playlist_for_markers\<close>, \<open>pts_clock\<close> for the pts of the marker
  and \<open>id_clock\<close> for the event id inside \<open>_insert_cue_out\<close>.
\<close>

record clock =
  now :: real
  pts_clock :: real
  id_clock :: real

datatype error = TypeError | KeyError | OverflowError | OSError

text \<open>Python's \<open>int(x)\<close> on a float truncates towards zero.\<close>

definition py_int :: "real \<Rightarrow> int" where
  "py_int x = (if 0 \<le> x then \<lfloor>x\<rfloor> else \<lceil>x\<rceil>)"

text \<open>\<open>HLSProcessor.__init__\<close>, at clock reading \<open>t\<close>.\<close>

definition init_processor :: "real \<Rightarrow> StreamConfig \<Rightarrow> HLSProcessor" where
  "init_processor t cfg =
     \<lparr> config = cfg, running = False, segments_processed = 0, stop_event = False,
       in_ad_break = False, ad_break_event_id = None, ad_break_start_time = None,
       next_marker_time = t + real_of_int (ad_interval cfg) \<rparr>"

text \<open>\<open>HLSProcessor.stop\<close>.\<close>

definition stop :: "HLSProcessor \<Rightarrow> HLSProcessor" where
  "stop p = p\<lparr> running := False, stop_event := True \<rparr>"

section \<open>The marker step\<close>

text \<open>
  \<open>_insert_cue_out\<close>: returns at once on a playlist without segments; otherwise stores
  a fresh event id and puts the tag in front of the tags of the first segment.
\<close>

definition insert_cue_out :: "clock \<Rightarrow> HLSProcessor \<Rightarrow> playlist \<Rightarrow> HLSProcessor \<times> playlist" where
  "insert_cue_out c p pl =
     (case segments pl of
        [] \<Rightarrow> (p, pl)
      | s # rest \<Rightarrow>
          (let ev = py_int (id_clock c);
               p' = p\<lparr> ad_break_event_id := Some ev \<rparr>;
               marker = \<lparr> pts = pts_clock c * 90000,
                          duration = ad_duration (config p),
                          event_id = Some ev \<rparr>;
               scte35_tag = SCTE35_tag (encode_out marker)
           in (p', pl\<lparr> segments := s\<lparr> custom_tags := scte35_tag # custom_tags s \<rparr> # rest \<rparr>)))"

text \<open>
  \<open>_insert_cue_in\<close>: returns at once on a playlist without segments; otherwise appends
  the tag built from the stored event id, then the cue-in tag, to the last segment.
\<close>

definition insert_cue_in :: "clock \<Rightarrow> HLSProcessor \<Rightarrow> playlist \<Rightarrow> HLSProcessor \<times> playlist" where
  "insert_cue_in c p pl =
     (if segments pl = [] then (p, pl)
      else
        (let marker = \<lparr> pts = pts_clock c * 90000,
                         duration = ad_duration (config p),
                         event_id = ad_break_event_id p \<rparr>;
             scte35_tag = SCTE35_tag (encode_in marker);
             s = last (segments pl)
         in (p, pl\<lparr> segments := butlast (segments pl) @
                        [s\<lparr> custom_tags := custom_tags s @ [scte35_tag, CUE_IN_tag] \<rparr>] \<rparr>)))"

text \<open>
  \<open>_process_playlist_for_markers\<close>. Subtracting \<open>None\<close> from a float raises
  \<open>TypeError\<close> before anything is changed.
\<close>

definition process_playlist_for_markers ::
  "clock \<Rightarrow> HLSProcessor \<Rightarrow> playlist \<Rightarrow> error + (HLSProcessor \<times> playlist)" where
  "process_playlist_for_markers c p pl =
     (let current_time = now c in
      if in_ad_break p then
        (case ad_break_start_time p of
           None \<Rightarrow> Inl TypeError
         | Some st \<Rightarrow>
             (let time_in_break = current_time - st in
              if time_in_break \<ge> real_of_int (ad_duration (config p)) then
                (case insert_cue_in c p pl of
                   (p1, pl1) \<Rightarrow>
                     Inr (p1\<lparr> in_ad_break := False,
                              ad_break_event_id := None,
                              ad_break_start_time := None,
                              next_marker_time := current_time + real_of_int (ad_interval (config p1)) \<rparr>,
                          pl1))
              else Inr (p, pl)))
      else
        if current_time \<ge> next_marker_time p then
          (case insert_cue_out c p pl of
             (p1, pl1) \<Rightarrow>
               Inr (p1\<lparr> in_ad_break := True, ad_break_start_time := Some current_time \<rparr>, pl1))
        else Inr (p, pl))"

text \<open>
  One call as the loop of \<open>process_stream\<close> sees it: an exception leaves the processor
  and the playlist as they were.
\<close>

definition marker_call :: "clock \<times> playlist \<Rightarrow> HLSProcessor \<Rightarrow> HLSProcessor \<times> playlist" where
  "marker_call inp p =
     (case process_playlist_for_markers (fst inp) p (snd inp) of
        Inl e \<Rightarrow> (p, snd inp)
      | Inr r \<Rightarrow> r)"

text \<open>The processor after a sequence of calls, and the processors met on the way.\<close>

fun marker_calls :: "(clock \<times> playlist) list \<Rightarrow> HLSProcessor \<Rightarrow> HLSProcessor" where
  "marker_calls [] p = p"
| "marker_calls (inp # rest) p = marker_calls rest (fst (marker_call inp p))"

fun marker_states :: "(clock \<times> playlist) list \<Rightarrow> HLSProcessor \<Rightarrow> HLSProcessor list" where
  "marker_states [] p = []"
| "marker_states (inp # rest) p =
     fst (marker_call inp p) # marker_states rest (fst (marker_call inp p))"

text \<open>A processor that is in a break has the start time of the break.\<close>

definition break_has_start :: "HLSProcessor \<Rightarrow> bool" where
  "break_has_start p = (if in_ad_break p then ad_break_start_time p \<noteq> None else True)"

text \<open>The tags of kind cue-out and cue-in carried by a playlist.\<close>

fun is_cue_out :: "tag \<Rightarrow> bool" where
  "is_cue_out (SCTE35_tag (Cue ty msg m)) = (ty = 0x34)"
| "is_cue_out CUE_IN_tag = False"
| "is_cue_out (Other_tag s) = False"

fun is_cue_in :: "tag \<Rightarrow> bool" where
  "is_cue_in (SCTE35_tag (Cue ty msg m)) = (ty = 0x35)"
| "is_cue_in CUE_IN_tag = True"
| "is_cue_in (Other_tag s) = False"

definition all_tags :: "playlist \<Rightarrow> tag list" where
  "all_tags pl = concat (map custom_tags (segments pl))"

definition cue_outs :: "playlist \<Rightarrow> tag list" where
  "cue_outs pl = filter is_cue_out (all_tags pl)"

definition cue_ins :: "playlist \<Rightarrow> tag list" where
  "cue_ins pl = filter is_cue_in (all_tags pl)"

section \<open>The output directory\<close>

text \<open>
  The output directory of a stream: whether it exists, whether \<open>os.access(dir, W_OK)\<close>
  holds, and its entries in the order \<open>iterdir\<close> lists them. An entry is a regular file
  with its content or a subdirectory.
\<close>

datatype entry = File string | Dir

record out_dir =
  dir_exists :: bool
  dir_writable :: bool
  entries :: "(string \<times> entry) list"

fun is_file :: "entry \<Rightarrow> bool" where
  "is_file (File body) = True"
| "is_file Dir = False"

text \<open>\<open>str.endswith\<close>.\<close>

definition ends_with :: "string \<Rightarrow> string \<Rightarrow> bool" where
  "ends_with suf s = (length suf \<le> length s \<and> drop (length s - length suf) s = suf)"

text \<open>
  \<open>Path(uri).name\<close> on a POSIX path: the text is cut at every slash, empty components
  and single dots are dropped, and the name is the last component left, or the empty
  string when there is none.
\<close>

fun split_slash :: "string \<Rightarrow> string list" where
  "split_slash [] = [[]]"
| "split_slash (c # cs) =
     (if c = CHR ''/'' then [] # split_slash cs
      else (case split_slash cs of
              [] \<Rightarrow> [[c]]
            | w # ws \<Rightarrow> (c # w) # ws))"

definition path_parts :: "string \<Rightarrow> string list" where
  "path_parts u = filter (\<lambda>w. w \<noteq> [] \<and> w \<noteq> ''.'') (split_slash u)"

definition path_name :: "string \<Rightarrow> string" where
  "path_name u = (case rev (path_parts u) of [] \<Rightarrow> [] | n # ns \<Rightarrow> n)"

text \<open>
  \<open>(output_dir / name).exists()\<close> in an existing directory: the empty name is the
  directory itself and \<open>..\<close> its parent; any other name is looked up in the entries.
\<close>

definition path_exists :: "out_dir \<Rightarrow> string \<Rightarrow> bool" where
  "path_exists d n =
     (dir_exists d \<and> (n = [] \<or> n = ''..'' \<or> map_of (entries d) n \<noteq> None))"

text \<open>The file name under which a segment is stored.\<close>

abbreviation segment_name :: "segment \<Rightarrow> string" where
  "segment_name s \<equiv> path_name (uri s)"

text \<open>The set comprehension \<open>{Path(seg.uri).name for seg in playlist.segments}\<close>.\<close>

definition current_segment_files :: "playlist \<Rightarrow> string list" where
  "current_segment_files pl = map (\<lambda>s. path_name (uri s)) (segments pl)"

text \<open>The regular files of the directory whose name ends in \<open>.ts\<close>.\<close>

definition ts_files :: "out_dir \<Rightarrow> string set" where
  "ts_files d = set (map fst (filter (\<lambda>(n, e). is_file e \<and> ends_with ''.ts'' n) (entries d)))"

section \<open>Writing the playlist\<close>

datatype io_result = Io_ok | Io_denied | Io_failed

text \<open>
  \<open>_save_playlist\<close>. The outcomes of \<open>mkdir\<close> and of \<open>write_text\<close> come from the
  operating system: \<open>Io_denied\<close> is \<open>PermissionError\<close>, \<open>Io_failed\<close> any other
  exception. The text written, \<open>playlist.dumps()\<close> after the rewriting of the EXTINF
  lines, is the parameter \<open>render\<close>.
\<close>

definition save_playlist ::
  "(playlist \<Rightarrow> string) \<Rightarrow> io_result \<Rightarrow> io_result \<Rightarrow> HLSProcessor \<Rightarrow> playlist \<Rightarrow> out_dir
     \<Rightarrow> HLSProcessor \<times> out_dir" where
  "save_playlist render mk wr p pl d =
     (case mk of
        Io_denied \<Rightarrow> (stop p, d)
      | Io_failed \<Rightarrow> (p, d)
      | Io_ok \<Rightarrow>
          (let d1 = d\<lparr> dir_exists := True \<rparr> in
           case wr of
             Io_denied \<Rightarrow> (stop p, d1)
           | Io_failed \<Rightarrow> (p, d1)
           | Io_ok \<Rightarrow>
               (p, d1\<lparr> entries := AList.update ''playlist.m3u8'' (File (render pl)) (entries d1) \<rparr>)))"

section \<open>Downloading and pruning segments\<close>

text \<open>
  What one \<open>download_segment\<close> does: the transfer completes and the temporary file is
  renamed to the segment's name; or it fails with nothing left behind (the request
  fails, or the rename fails and the temporary file is removed); or the body breaks
  off while being written, and the temporary file, whose name the source has not yet
  recorded, stays.
\<close>

datatype transfer = Transfer_ok string | Transfer_failed | Transfer_cut string string

fun download_segment :: "(string \<Rightarrow> transfer) \<Rightarrow> segment \<Rightarrow> (string \<times> entry) list
    \<Rightarrow> (string \<times> entry) list \<times> bool" where
  "download_segment get s es =
     (case get (uri s) of
        Transfer_ok body \<Rightarrow> (AList.update (path_name (uri s)) (File body) es, True)
      | Transfer_failed \<Rightarrow> (es, False)
      | Transfer_cut tmp part \<Rightarrow> (AList.update tmp (File part) es, False))"

text \<open>
  The pool of four threads runs the scheduled downloads; the model runs them one after
  the other in the order of the list and counts the successful ones.
\<close>

fun download_all :: "(string \<Rightarrow> transfer) \<Rightarrow> segment list \<Rightarrow> (string \<times> entry) list
    \<Rightarrow> (string \<times> entry) list \<times> nat" where
  "download_all get [] es = (es, 0)"
| "download_all get (s # rest) es =
     (case download_segment get s es of
        (es1, ok) \<Rightarrow>
          (case download_all get rest es1 of
             (es2, n) \<Rightarrow> (es2, (if ok then 1 else 0) + n)))"

definition segments_to_download :: "out_dir \<Rightarrow> playlist \<Rightarrow> segment list" where
  "segments_to_download d pl =
     filter (\<lambda>s. \<not> path_exists d (path_name (uri s))) (segments pl)"

text \<open>\<open>_process_segments\<close>.\<close>

definition process_segments ::
  "(string \<Rightarrow> transfer) \<Rightarrow> HLSProcessor \<Rightarrow> playlist \<Rightarrow> out_dir \<Rightarrow> HLSProcessor \<times> out_dir" where
  "process_segments get p pl d =
     (if \<not> (dir_exists d \<and> dir_writable d) then (p, d)
      else
        (case download_all get (segments_to_download d pl) (entries d) of
           (es, n) \<Rightarrow> (p\<lparr> segments_processed := segments_processed p + n \<rparr>, d\<lparr> entries := es \<rparr>)))"

text \<open>
  The loop of \<open>_cleanup_old_segments\<close> over the listing \<open>items\<close>, acting on the entries
  \<open>es\<close>. An \<open>unlink\<close> that raises ends the loop: the handler around it only logs.
\<close>

fun prune :: "(string \<Rightarrow> bool) \<Rightarrow> string list \<Rightarrow> (string \<times> entry) list
    \<Rightarrow> (string \<times> entry) list \<Rightarrow> (string \<times> entry) list" where
  "prune can_unlink keep [] es = es"
| "prune can_unlink keep ((n, e) # items) es =
     (if is_file e \<and> ends_with ''.ts'' n then
        (if n \<notin> set keep then
           (if can_unlink n then prune can_unlink keep items (AList.delete n es)
            else es)
         else prune can_unlink keep items es)
      else prune can_unlink keep items es)"

definition cleanup_old_segments :: "(string \<Rightarrow> bool) \<Rightarrow> playlist \<Rightarrow> out_dir \<Rightarrow> out_dir" where
  "cleanup_old_segments can_unlink pl d =
     (if \<not> dir_exists d then d
      else d\<lparr> entries := prune can_unlink (current_segment_files pl) (entries d) (entries d) \<rparr>)"

text \<open>One reconciliation pass: the downloads, then the pruning.\<close>

definition reconcile ::
  "(string \<Rightarrow> transfer) \<Rightarrow> (string \<Rightarrow> bool) \<Rightarrow> HLSProcessor \<Rightarrow> playlist \<Rightarrow> out_dir
     \<Rightarrow> HLSProcessor \<times> out_dir" where
  "reconcile get can_unlink p pl d =
     (case process_segments get p pl d of
        (p1, d1) \<Rightarrow> (p1, cleanup_old_segments can_unlink pl d1))"

text \<open>Every download that the pass schedules completes.\<close>

definition downloads_succeed :: "(string \<Rightarrow> transfer) \<Rightarrow> out_dir \<Rightarrow> playlist \<Rightarrow> bool" where
  "downloads_succeed get d pl =
     list_all (\<lambda>s. case get (uri s) of Transfer_ok body \<Rightarrow> True
                                     | Transfer_failed \<Rightarrow> False
                                     | Transfer_cut tmp part \<Rightarrow> False)
              (segments_to_download d pl)"

section \<open>One cycle of the worker\<close>

text \<open>
  \<open>_download_playlist\<close> returns the parsed playlist, or \<open>None\<close> after a
  \<open>RequestException\<close>; any other exception leaves it and reaches the handler of the loop.
\<close>

datatype fetch_result = Fetched playlist | Fetch_none | Fetch_raised

record cycle_env =
  fetch :: fetch_result
  clk :: clock
  mkdir_result :: io_result
  write_result :: io_result
  transfer_of :: "string \<Rightarrow> transfer"
  can_unlink_of :: "string \<Rightarrow> bool"

text \<open>Which steps of the cycle ran, for the properties that speak of skipped steps.\<close>

datatype cycle_step = Step_markers | Step_write | Step_download | Step_prune

record cycle_out =
  proc :: HLSProcessor
  dir :: out_dir
  steps_run :: "cycle_step list"
  slept :: "real option"

definition sleep_duration :: "playlist \<Rightarrow> real" where
  "sleep_duration pl =
     max 1 (case target_duration pl of
              None \<Rightarrow> 2
            | Some t \<Rightarrow> (if t = 0 then 2 else t / 2))"

text \<open>The body of the loop of \<open>process_stream\<close>.\<close>

definition cycle :: "(playlist \<Rightarrow> string) \<Rightarrow> cycle_env \<Rightarrow> HLSProcessor \<Rightarrow> out_dir \<Rightarrow> cycle_out" where
  "cycle render e p d =
     (case fetch e of
        Fetch_raised \<Rightarrow> \<lparr> proc = p, dir = d, steps_run = [], slept = Some 5 \<rparr>
      | Fetch_none \<Rightarrow> \<lparr> proc = p, dir = d, steps_run = [], slept = Some 2 \<rparr>
      | Fetched pl \<Rightarrow>
          (case process_playlist_for_markers (clk e) p pl of
             Inl err \<Rightarrow> \<lparr> proc = p, dir = d, steps_run = [Step_markers], slept = Some 5 \<rparr>
           | Inr (p1, pl1) \<Rightarrow>
               (case save_playlist render (mkdir_result e) (write_result e) p1 pl1 d of
                  (p2, d2) \<Rightarrow>
                    if \<not> running p2 then
                      \<lparr> proc = p2, dir = d2, steps_run = [Step_markers, Step_write], slept = None \<rparr>
                    else
                      (case process_segments (transfer_of e) p2 pl1 d2 of
                         (p3, d3) \<Rightarrow>
                           \<lparr> proc = p3,
                             dir = cleanup_old_segments (can_unlink_of e) pl1 d3,
                             steps_run = [Step_markers, Step_write, Step_download, Step_prune],
                             slept = Some (sleep_duration pl1) \<rparr>))))"

text \<open>
  The loop of \<open>process_stream\<close>, driven by the environments of its successive cycles.
\<close>

fun cycles :: "(playlist \<Rightarrow> string) \<Rightarrow> cycle_env list \<Rightarrow> HLSProcessor \<Rightarrow> out_dir
    \<Rightarrow> HLSProcessor \<times> out_dir" where
  "cycles render [] p d = (p, d)"
| "cycles render (e # rest) p d =
     (if running p \<and> \<not> stop_event p then
        (case cycle render e p d of r \<Rightarrow> cycles render rest (proc r) (dir r))
      else (p, d))"

definition process_stream :: "(playlist \<Rightarrow> string) \<Rightarrow> cycle_env list \<Rightarrow> HLSProcessor \<Rightarrow> out_dir
    \<Rightarrow> HLSProcessor \<times> out_dir" where
  "process_stream render envs p d = cycles render envs (p\<lparr> running := True \<rparr>) d"

section \<open>The registry of streams\<close>

text \<open>
  \<open>StreamManager\<close> keeps three dicts keyed by stream id. Python dicts keep insertion
  order, so each is an association list. The processors are objects shared with
  their worker threads: the dict \<open>streams\<close> holds references into a store of
  processors. \<open>config_file\<close> is the content of \<open>streams.json\<close>, \<open>None\<close> while the file
  does not exist.
\<close>

record thread =
  thread_target :: nat
  thread_name :: string
  daemon :: bool
  started :: bool

record StreamManager =
  streams :: "(string \<times> nat) list"
  configs :: "(string \<times> StreamConfig) list"
  threads :: "(string \<times> thread) list"

record world =
  store :: "nat \<Rightarrow> HLSProcessor option"
  next_ref :: nat
  manager :: StreamManager
  config_file :: "StreamConfig list option"

text \<open>
  \<open>save_streams_config\<close>: the values of the dict, in its order, written to
  \<open>streams.json\<close>. \<open>io\<close> is what the operating system answers to the \<open>open\<close> of the
  file: when it raises, nothing is written and the exception leaves the caller, which
  has no handler.
\<close>

definition save_streams_config ::
  "io_result \<Rightarrow> (string \<times> StreamConfig) list \<Rightarrow> world \<Rightarrow> error + world" where
  "save_streams_config io cfgs w =
     (case io of
        Io_ok \<Rightarrow> Inr (w\<lparr> config_file := Some (map snd cfgs) \<rparr>)
      | Io_denied \<Rightarrow> Inl OSError
      | Io_failed \<Rightarrow> Inl OSError)"




text \<open>
  \<open>thread.join(timeout)\<close>. \<open>needed\<close> is the time the thread still needs to finish,
  \<open>None\<close> if it never does. The result is the time spent waiting and what
  \<open>thread.is_alive()\<close> answers afterwards.
\<close>

definition thread_join :: "real \<Rightarrow> real option \<Rightarrow> real \<times> bool" where
  "thread_join timeout needed =
     (case needed of
        None \<Rightarrow> (timeout, True)
      | Some t \<Rightarrow> (if t \<le> timeout then (t, False) else (timeout, True)))"

text \<open>
  \<open>StreamManager.remove_stream\<close>, returning besides the result and the new state the
  time spent in \<open>join(timeout=10)\<close>. When the thread is still alive after the join the
  source only logs a warning. A dict without the key raises \<open>KeyError\<close>, and a failed
  write of \<open>streams.json\<close> raises too, each at the state reached so far.
\<close>

definition remove_stream ::
  "io_result \<Rightarrow> real option \<Rightarrow> string \<Rightarrow> world
     \<Rightarrow> (error \<times> world) + (bool \<times> world \<times> real)" where
  "remove_stream io needed sid w =
     (let m = manager w in
      case map_of (streams m) sid of
        None \<Rightarrow> Inr (False, w, 0)
      | Some r \<Rightarrow>
          (case map_of (threads m) sid of
             None \<Rightarrow> Inl (KeyError, w)
           | Some th \<Rightarrow>
               (let w1 = w\<lparr> store := (store w)(r := map_option stop (store w r)) \<rparr>;
                    (waited, alive) = thread_join 10 needed;
                    m1 = m\<lparr> streams := AList.delete sid (streams m) \<rparr>
                in case map_of (configs m) sid of
                     None \<Rightarrow> Inl (KeyError, w1\<lparr> manager := m1 \<rparr>)
                   | Some c \<Rightarrow>
                       (let m2 = m1\<lparr> configs := AList.delete sid (configs m),
                                      threads := AList.delete sid (threads m) \<rparr>;
                            w2 = w1\<lparr> manager := m2 \<rparr>
                        in case save_streams_config io (configs m2) w2 of
                             Inl e \<Rightarrow> Inl (e, w2)
                           | Inr w3 \<Rightarrow> Inr (True, w3, waited)))))"



definition in_step :: "StreamManager \<Rightarrow> bool" where
  "in_step m = (fst ` set (streams m) = fst ` set (configs m)
                \<and> fst ` set (streams m) = fst ` set (threads m))"

section \<open>Example inputs\<close>

text \<open>
  A stream with a break of 30 seconds every 300 seconds, a playlist without segments,
  a playlist of two segments, and a clock whose three readings agree.
\<close>

definition example_config :: StreamConfig where
  "example_config = \<lparr> stream_id = ''s1'', input_url = ''http://origin/live.m3u8'',
     output_path = ''out'', ad_duration = 30, ad_interval = 300, enabled = True \<rparr>"

definition empty_playlist :: playlist where
  "empty_playlist = \<lparr> segments = [], target_duration = None \<rparr>"

definition two_segments :: playlist where
  "two_segments =
     \<lparr> segments = [\<lparr> uri = ''b.ts'', custom_tags = [] \<rparr>, \<lparr> uri = ''c.ts'', custom_tags = [] \<rparr>],
       target_duration = Some 6 \<rparr>"

definition at_time :: "real \<Rightarrow> clock" where
  "at_time t = \<lparr> now = t, pts_clock = t, id_clock = t \<rparr>"

text \<open>
  The same stream with no pause between breaks, a processor that has been in a break
  since time \<open>t\<close>, and the two-segment playlist after a cue-out at time 300 and after
  a cue-in at time 331.
\<close>

definition back_to_back_config :: StreamConfig where
  "back_to_back_config = example_config\<lparr> ad_interval := 0 \<rparr>"

definition in_break_since :: "real \<Rightarrow> StreamConfig \<Rightarrow> HLSProcessor" where
  "in_break_since t cfg = (init_processor 0 cfg)\<lparr> in_ad_break := True,
      ad_break_event_id := Some (py_int t), ad_break_start_time := Some t \<rparr>"

definition two_segments_out :: playlist where
  "two_segments_out =
     \<lparr> segments = [\<lparr> uri = ''b.ts'', custom_tags =
                [SCTE35_tag (encode_out \<lparr> pts = 300 * 90000, duration = 30, event_id = Some 300 \<rparr>)] \<rparr>,
             \<lparr> uri = ''c.ts'', custom_tags = [] \<rparr>],
       target_duration = Some 6 \<rparr>"

definition two_segments_in :: playlist where
  "two_segments_in =
     \<lparr> segments = [\<lparr> uri = ''b.ts'', custom_tags = [] \<rparr>,
             \<lparr> uri = ''c.ts'', custom_tags =
                [SCTE35_tag (encode_in \<lparr> pts = 331 * 90000, duration = 30, event_id = Some 300 \<rparr>),
                 CUE_IN_tag] \<rparr>],
       target_duration = Some 6 \<rparr>"

text \<open>
  A stand-in for the text of a playlist, the playlist and the directory of a stream
  whose upstream moved from a.ts, b.ts, c.ts to b.ts, c.ts, d.ts, a cycle in which
  everything succeeds, the same cycle with a failed fetch, and a running worker.
\<close>

definition example_render :: "playlist \<Rightarrow> string" where
  "example_render pl = concat (map (\<lambda>s. uri s @ ''; '') (segments pl))"

definition three_segments :: playlist where
  "three_segments =
     \<lparr> segments = [\<lparr> uri = ''b.ts'', custom_tags = [] \<rparr>, \<lparr> uri = ''c.ts'', custom_tags = [] \<rparr>,
                    \<lparr> uri = ''d.ts'', custom_tags = [] \<rparr>],
       target_duration = Some 6 \<rparr>"

definition scenario_B_dir :: out_dir where
  "scenario_B_dir =
     \<lparr> dir_exists = True, dir_writable = True,
       entries = [(''playlist.m3u8'', File ''old''), (''a.ts'', File ''A''),
                  (''b.ts'', File ''B''), (''c.ts'', File ''C'')] \<rparr>"

definition good_env :: cycle_env where
  "good_env = \<lparr> fetch = Fetched three_segments, clk = at_time 100,
                 mkdir_result = Io_ok, write_result = Io_ok,
                 transfer_of = (\<lambda>u. Transfer_ok u), can_unlink_of = (\<lambda>n. True) \<rparr>"

definition failed_fetch_env :: cycle_env where
  "failed_fetch_env = good_env\<lparr> fetch := Fetch_none \<rparr>"

definition running_processor :: HLSProcessor where
  "running_processor = (init_processor 0 example_config)\<lparr> running := True \<rparr>"






text \<open>
  A playlist whose only segment carries a query string, as playlists with access
  tokens do, and an empty writable directory.
\<close>

definition tokenized_playlist :: playlist where
  "tokenized_playlist =
     \<lparr> segments = [\<lparr> uri = ''http://origin/live/seg1.ts?token=abc'', custom_tags = [] \<rparr>],
       target_duration = Some 6 \<rparr>"

definition empty_dir :: out_dir where
  "empty_dir = \<lparr> dir_exists = True, dir_writable = True, entries = [] \<rparr>"

section \<open>Properties of the marker step\<close>

text \<open>What the two insertions do to the tags of a playlist and to the processor.\<close>

lemma all_tags_insert_cue_out:
  "all_tags (snd (insert_cue_out c p pl)) =
     (if segments pl = [] then all_tags pl
      else SCTE35_tag (encode_out \<lparr> pts = pts_clock c * 90000, duration = ad_duration (config p),
                                     event_id = Some (py_int (id_clock c)) \<rparr>) # all_tags pl)"
  by (simp add: insert_cue_out_def all_tags_def Let_def split: list.splits)

lemma all_tags_insert_cue_in:
  "all_tags (snd (insert_cue_in c p pl)) =
     (if segments pl = [] then all_tags pl
      else all_tags pl @
           [SCTE35_tag (encode_in \<lparr> pts = pts_clock c * 90000, duration = ad_duration (config p),
                                     event_id = ad_break_event_id p \<rparr>), CUE_IN_tag])"
proof (cases "segments pl = []")
  case True
  then show ?thesis by (simp add: insert_cue_in_def)
next
  case False
  have "concat (map custom_tags (butlast (segments pl) @ [last (segments pl)]))
      = concat (map custom_tags (butlast (segments pl))) @ custom_tags (last (segments pl))"
    by (simp del: append_butlast_last_id)
  then have "concat (map custom_tags (segments pl))
      = concat (map custom_tags (butlast (segments pl))) @ custom_tags (last (segments pl))"
    unfolding append_butlast_last_id [OF False] .
  with False show ?thesis
    by (simp add: insert_cue_in_def all_tags_def Let_def)
qed

lemma cue_outs_insert_cue_in: "cue_outs (snd (insert_cue_in c p pl)) = cue_outs pl"
  by (simp add: cue_outs_def all_tags_insert_cue_in encode_in_def)

lemma cue_ins_insert_cue_out: "cue_ins (snd (insert_cue_out c p pl)) = cue_ins pl"
  by (simp add: cue_ins_def all_tags_insert_cue_out encode_out_def)

lemma insert_cue_out_proc:
  "fst (insert_cue_out c p pl) =
     (if segments pl = [] then p else p\<lparr> ad_break_event_id := Some (py_int (id_clock c)) \<rparr>)"
  by (simp add: insert_cue_out_def Let_def split: list.splits)

lemma insert_cue_in_proc: "fst (insert_cue_in c p pl) = p"
  by (simp add: insert_cue_in_def Let_def)


text \<open>The three ways a call can end: nothing changes, a break opens, a break closes.\<close>

lemma marker_call_cases:
  assumes "marker_call (c, pl) p = (p', pl')"
  shows "(p' = p \<and> pl' = pl)
       \<or> (\<not> in_ad_break p \<and> now c \<ge> next_marker_time p
            \<and> p' = (fst (insert_cue_out c p pl))\<lparr> in_ad_break := True, ad_break_start_time := Some (now c) \<rparr>
            \<and> pl' = snd (insert_cue_out c p pl))
       \<or> (in_ad_break p
            \<and> (\<exists>st. ad_break_start_time p = Some st
                   \<and> now c - st \<ge> real_of_int (ad_duration (config p)))
            \<and> p' = p\<lparr> in_ad_break := False, ad_break_event_id := None,
                         ad_break_start_time := None,
                         next_marker_time := now c + real_of_int (ad_interval (config p)) \<rparr>
            \<and> pl' = snd (insert_cue_in c p pl))"
  using assms
  by (auto simp: marker_call_def process_playlist_for_markers_def Let_def case_prod_beta
        insert_cue_in_proc split: if_splits option.splits)


text \<open>
  A processor in a break has a start time: this holds after the constructor and after
  every call, so the subtraction in the marker step never meets \<open>None\<close>.
\<close>

lemma break_has_start_init: "break_has_start (init_processor t cfg)"
  by (simp add: break_has_start_def init_processor_def)

lemma break_has_start_no_error:
  "break_has_start p \<Longrightarrow> \<exists>r. process_playlist_for_markers c p pl = Inr r"
  by (auto simp: break_has_start_def process_playlist_for_markers_def Let_def case_prod_beta
           split: if_splits)

lemma break_has_start_marker_call:
  assumes "break_has_start p"
  shows "break_has_start (fst (marker_call inp p))"
proof -
  obtain c pl where inp: "inp = (c, pl)" by (cases inp)
  obtain p' pl' where r: "marker_call (c, pl) p = (p', pl')" by (cases "marker_call (c, pl) p")
  from marker_call_cases [OF r] assms show ?thesis
    unfolding inp r by (auto simp: break_has_start_def)
qed

lemma break_has_start_marker_calls:
  "break_has_start p \<Longrightarrow> break_has_start (marker_calls calls p)"
  by (induction calls arbitrary: p) (simp_all add: break_has_start_marker_call)

text \<open>
  C1. The claim is that a call on a playlist without segments leaves \<open>in_ad_break\<close>,
  \<open>ad_break_event_id\<close>, \<open>ad_break_start_time\<close> and \<open>next_marker_time\<close> as they were.
  The code does not: \<open>_insert_cue_out\<close> and \<open>_insert_cue_in\<close> return early on such a
  playlist, but the caller goes on to change the phase. At time 300 the idle
  processor created at time 0 enters a break that has no event id and no marker; at
  time 331 that break is closed again and the timer is rearmed, still without a
  marker; and if the playlist at time 331 has segments, the cue-in marker of that
  break is built with no event id.
\<close>

theorem C1_empty_playlist_changes_state:
  "process_playlist_for_markers (at_time 300) (init_processor 0 example_config) empty_playlist
     = Inr ((init_processor 0 example_config)
              \<lparr> in_ad_break := True, ad_break_start_time := Some 300 \<rparr>, empty_playlist)
   \<and> process_playlist_for_markers (at_time 331)
        ((init_processor 0 example_config)\<lparr> in_ad_break := True, ad_break_start_time := Some 300 \<rparr>)
        empty_playlist
     = Inr ((init_processor 0 example_config)\<lparr> next_marker_time := 631 \<rparr>, empty_playlist)
   \<and> process_playlist_for_markers (at_time 331)
        ((init_processor 0 example_config)\<lparr> in_ad_break := True, ad_break_start_time := Some 300 \<rparr>)
        two_segments
     = Inr ((init_processor 0 example_config)\<lparr> next_marker_time := 631 \<rparr>,
            \<lparr> segments = [\<lparr> uri = ''b.ts'', custom_tags = [] \<rparr>,
                 \<lparr> uri = ''c.ts'', custom_tags =
                    [SCTE35_tag (encode_in \<lparr> pts = 331 * 90000, duration = 30, event_id = None \<rparr>),
                     CUE_IN_tag] \<rparr>],
              target_duration = Some 6 \<rparr>)"
  by (simp add: process_playlist_for_markers_def init_processor_def example_config_def
        empty_playlist_def two_segments_def at_time_def insert_cue_out_def insert_cue_in_def)

text \<open>
  C2. After any sequence of calls of the marker step, a call moves the processor from
  idle into a break only if the current time has reached \<open>next_marker_time\<close>, and out
  of a break only if the current time minus \<open>ad_break_start_time\<close> has reached the
  configured \<open>ad_duration\<close>.
\<close>

theorem C2_transitions_only_when_due:
  assumes "p = marker_calls calls p0" and "marker_call (c, pl) p = (p', pl')"
  shows "(\<not> in_ad_break p \<and> in_ad_break p' \<longrightarrow> now c \<ge> next_marker_time p)
       \<and> (in_ad_break p \<and> \<not> in_ad_break p' \<longrightarrow>
            (\<exists>st. ad_break_start_time p = Some st
                 \<and> now c - st \<ge> real_of_int (ad_duration (config p))))"
  using marker_call_cases [OF assms(2)]
  by auto

theorem C2_transitions_only_when_due_witness:
  "\<not> in_ad_break (marker_calls [(at_time 100, two_segments)] (init_processor 0 example_config))
   \<and> in_ad_break (fst (marker_call (at_time 300, two_segments)
        (marker_calls [(at_time 100, two_segments)] (init_processor 0 example_config))))
   \<and> now (at_time 300)
       \<ge> next_marker_time (marker_calls [(at_time 100, two_segments)] (init_processor 0 example_config))
   \<and> in_ad_break (marker_calls [(at_time 300, two_segments)] (init_processor 0 example_config))
   \<and> \<not> in_ad_break (fst (marker_call (at_time 331, two_segments)
        (marker_calls [(at_time 300, two_segments)] (init_processor 0 example_config))))
   \<and> (\<exists>st. ad_break_start_time
              (marker_calls [(at_time 300, two_segments)] (init_processor 0 example_config)) = Some st
          \<and> now (at_time 331) - st \<ge> real_of_int (ad_duration (config
              (marker_calls [(at_time 300, two_segments)] (init_processor 0 example_config)))))"
  using C2_transitions_only_when_due [of
          "marker_calls [(at_time 100, two_segments)] (init_processor 0 example_config)"
          "[(at_time 100, two_segments)]" "init_processor 0 example_config"
          "at_time 300" two_segments
          "fst (marker_call (at_time 300, two_segments)
             (marker_calls [(at_time 100, two_segments)] (init_processor 0 example_config)))"
          "snd (marker_call (at_time 300, two_segments)
             (marker_calls [(at_time 100, two_segments)] (init_processor 0 example_config)))"]
        C2_transitions_only_when_due [of
          "marker_calls [(at_time 300, two_segments)] (init_processor 0 example_config)"
          "[(at_time 300, two_segments)]" "init_processor 0 example_config"
          "at_time 331" two_segments
          "fst (marker_call (at_time 331, two_segments)
             (marker_calls [(at_time 300, two_segments)] (init_processor 0 example_config)))"
          "snd (marker_call (at_time 331, two_segments)
             (marker_calls [(at_time 300, two_segments)] (init_processor 0 example_config)))"]
  by (simp add: marker_call_def process_playlist_for_markers_def init_processor_def
        example_config_def two_segments_def at_time_def insert_cue_out_def insert_cue_in_def
        Let_def py_int_def)

text \<open>
  C5. One call of the marker step runs at most one of the two branches. A call that
  starts inside a break either changes nothing or closes the break: it never leaves
  the processor in a break again and adds no cue-out tag, even when the time for the
  next break has already come. A call that starts outside a break either changes
  nothing or opens one: it adds no cue-in tag and does not rearm the timer.
\<close>

theorem C5_one_branch_per_call:
  assumes "marker_call (c, pl) p = (p', pl')"
  shows "(in_ad_break p \<longrightarrow>
            (p' = p \<and> pl' = pl)
          \<or> (\<not> in_ad_break p' \<and> ad_break_start_time p' = None \<and> ad_break_event_id p' = None
               \<and> cue_outs pl' = cue_outs pl))
       \<and> (\<not> in_ad_break p \<longrightarrow>
            (p' = p \<and> pl' = pl)
          \<or> (in_ad_break p' \<and> next_marker_time p' = next_marker_time p
               \<and> cue_ins pl' = cue_ins pl))"
proof -
  from marker_call_cases [OF assms]
  consider (same) "p' = p" "pl' = pl"
    | (opened) "\<not> in_ad_break p"
        "p' = (fst (insert_cue_out c p pl))\<lparr> in_ad_break := True, ad_break_start_time := Some (now c) \<rparr>"
        "pl' = snd (insert_cue_out c p pl)"
    | (closed) "in_ad_break p"
        "p' = p\<lparr> in_ad_break := False, ad_break_event_id := None,
                 ad_break_start_time := None,
                 next_marker_time := now c + real_of_int (ad_interval (config p)) \<rparr>"
        "pl' = snd (insert_cue_in c p pl)"
    by argo
  then show ?thesis
  proof cases
    case same
    then show ?thesis by simp
  next
    case opened
    have "next_marker_time p' = next_marker_time p"
      unfolding opened(2) by (simp add: insert_cue_out_proc)
    moreover have "in_ad_break p'" unfolding opened(2) by simp
    moreover have "cue_ins pl' = cue_ins pl"
      unfolding opened(3) by (rule cue_ins_insert_cue_out)
    ultimately show ?thesis using opened(1) by simp
  next
    case closed
    have "\<not> in_ad_break p'" "ad_break_start_time p' = None" "ad_break_event_id p' = None"
      unfolding closed(2) by simp_all
    moreover have "cue_outs pl' = cue_outs pl"
      unfolding closed(3) by (rule cue_outs_insert_cue_in)
    ultimately show ?thesis using closed(1) by simp
  qed
qed

text \<open>Two calls on the two-segment playlist, evaluated.\<close>

lemma close_example:
  "marker_call (at_time 331, two_segments) (in_break_since 300 back_to_back_config)
     = (init_processor 331 back_to_back_config, two_segments_in)"
  by (simp add: marker_call_def process_playlist_for_markers_def init_processor_def
        example_config_def two_segments_def at_time_def insert_cue_in_def two_segments_in_def
        Let_def py_int_def back_to_back_config_def in_break_since_def)

lemma open_example:
  "marker_call (at_time 300, two_segments) (init_processor 0 example_config)
     = (in_break_since 300 example_config, two_segments_out)"
  by (simp add: marker_call_def process_playlist_for_markers_def init_processor_def
        example_config_def two_segments_def at_time_def insert_cue_out_def two_segments_out_def
        Let_def py_int_def in_break_since_def)

theorem C5_one_branch_per_call_witness:
  "in_ad_break (in_break_since 300 back_to_back_config)
   \<and> now (at_time 331) - 300 \<ge> real_of_int (ad_duration back_to_back_config)
   \<and> now (at_time 331) \<ge> next_marker_time (init_processor 331 back_to_back_config)
   \<and> marker_call (at_time 331, two_segments) (in_break_since 300 back_to_back_config)
       = (init_processor 331 back_to_back_config, two_segments_in)
   \<and> \<not> in_ad_break (init_processor 331 back_to_back_config)
   \<and> cue_outs two_segments_in = cue_outs two_segments
   \<and> \<not> in_ad_break (init_processor 0 example_config)
   \<and> marker_call (at_time 300, two_segments) (init_processor 0 example_config)
       = (in_break_since 300 example_config, two_segments_out)
   \<and> in_ad_break (in_break_since 300 example_config)
   \<and> cue_ins two_segments_out = cue_ins two_segments"
proof -
  have a: "in_ad_break (in_break_since 300 back_to_back_config)"
    and b: "in_break_since 300 back_to_back_config \<noteq> init_processor 331 back_to_back_config"
    and c: "\<not> in_ad_break (init_processor 0 example_config)"
    and d: "in_break_since 300 example_config \<noteq> init_processor 0 example_config"
    and e: "now (at_time 331) - 300 \<ge> real_of_int (ad_duration back_to_back_config)"
    and f: "now (at_time 331) \<ge> next_marker_time (init_processor 331 back_to_back_config)"
    by (simp_all add: in_break_since_def init_processor_def back_to_back_config_def
          example_config_def at_time_def)
  from C5_one_branch_per_call [OF close_example] a b
  have g: "\<not> in_ad_break (init_processor 331 back_to_back_config)
        \<and> cue_outs two_segments_in = cue_outs two_segments"
    by simp
  from C5_one_branch_per_call [OF open_example] c d
  have h: "in_ad_break (in_break_since 300 example_config)
        \<and> cue_ins two_segments_out = cue_ins two_segments"
    by simp
  show ?thesis using a c e f g h close_example open_example by simp
qed


text \<open>The tags of the first and of the last segment after an insertion.\<close>

lemma insert_cue_out_tags:
  "segments pl \<noteq> [] \<Longrightarrow>
     custom_tags (hd (segments (snd (insert_cue_out c p pl))))
       = SCTE35_tag (encode_out \<lparr> pts = pts_clock c * 90000, duration = ad_duration (config p),
                                     event_id = Some (py_int (id_clock c)) \<rparr>)
         # custom_tags (hd (segments pl))"
  by (simp add: insert_cue_out_def Let_def split: list.splits)

lemma insert_cue_in_tags:
  "segments pl \<noteq> [] \<Longrightarrow>
     custom_tags (last (segments (snd (insert_cue_in c p pl))))
       = custom_tags (last (segments pl))
         @ [SCTE35_tag (encode_in \<lparr> pts = pts_clock c * 90000, duration = ad_duration (config p),
                                      event_id = ad_break_event_id p \<rparr>), CUE_IN_tag]"
  by (simp add: insert_cue_in_def Let_def)

text \<open>A call that starts and ends inside a break leaves the processor as it was.\<close>

lemma stay_in_break:
  assumes "in_ad_break q" and "in_ad_break (fst (marker_call inp q))"
  shows "fst (marker_call inp q) = q"
proof -
  obtain c pl where inp: "inp = (c, pl)" by (cases inp)
  obtain q' pl' where r: "marker_call (c, pl) q = (q', pl')" by (cases "marker_call (c, pl) q")
  from marker_call_cases [OF r] assms show ?thesis
    unfolding inp r by auto
qed

lemma marker_calls_stay:
  "in_ad_break q \<Longrightarrow> list_all in_ad_break (marker_states mid q) \<Longrightarrow> marker_calls mid q = q"
proof (induction mid arbitrary: q)
  case Nil
  then show ?case by simp
next
  case (Cons inp mid)
  from Cons.prems have "in_ad_break (fst (marker_call inp q))" by simp
  with Cons.prems(1) have same: "fst (marker_call inp q) = q" by (rule stay_in_break)
  with Cons.prems have "list_all in_ad_break (marker_states mid q)" by simp
  with Cons.IH [OF Cons.prems(1)] same show ?case by simp
qed

text \<open>
  C3. Take a call that opens a break on a playlist with segments, so that a cue-out
  marker is put on its first segment; any calls after it during which the processor
  stays in the break; and the call that closes the break on a playlist with segments,
  so that a cue-in marker is put on its last segment. The cue carried by the tag on
  the first segment is of type 0x34 and holds the event id assigned in that call,
  which is also the id the processor stores; the cue carried by the tag on the last
  segment is of type 0x35 and holds the same event id.
\<close>

theorem C3_cue_in_carries_event_id_of_cue_out:
  assumes open_call: "marker_call (c1, pl1) p = (p1, pl1')"
      and was_idle: "\<not> in_ad_break p" and now_open: "in_ad_break p1"
      and out_marker: "segments pl1 \<noteq> []"
      and stays: "list_all in_ad_break (marker_states mid p1)"
      and close_call: "marker_call (c2, pl2) (marker_calls mid p1) = (p2, pl2')"
      and now_closed: "\<not> in_ad_break p2"
      and in_marker: "segments pl2 \<noteq> []"
  shows "\<exists>cue_out cue_in.
           custom_tags (hd (segments pl1'))
             = SCTE35_tag cue_out # custom_tags (hd (segments pl1))
         \<and> custom_tags (last (segments pl2'))
             = custom_tags (last (segments pl2)) @ [SCTE35_tag cue_in, CUE_IN_tag]
         \<and> segmentation_type_id cue_out = 0x34
         \<and> segmentation_type_id cue_in = 0x35
         \<and> event_id (cue_marker cue_out) = Some (py_int (id_clock c1))
         \<and> ad_break_event_id p1 = event_id (cue_marker cue_out)
         \<and> event_id (cue_marker cue_in) = event_id (cue_marker cue_out)"
proof -
  from marker_call_cases [OF open_call] was_idle now_open
  have p1: "p1 = (fst (insert_cue_out c1 p pl1))\<lparr> in_ad_break := True,
                    ad_break_start_time := Some (now c1) \<rparr>"
    and pl1': "pl1' = snd (insert_cue_out c1 p pl1)"
    by auto
  from out_marker have ev: "ad_break_event_id p1 = Some (py_int (id_clock c1))"
    unfolding p1 by (simp add: insert_cue_out_proc)
  have mid: "marker_calls mid p1 = p1"
    using now_open stays by (rule marker_calls_stay)
  from marker_call_cases [OF close_call [unfolded mid]] now_open now_closed
  have pl2': "pl2' = snd (insert_cue_in c2 p1 pl2)"
    by auto
  let ?m_out = "\<lparr> pts = pts_clock c1 * 90000, duration = ad_duration (config p),
                   event_id = Some (py_int (id_clock c1)) \<rparr>"
  let ?m_in = "\<lparr> pts = pts_clock c2 * 90000, duration = ad_duration (config p1),
                  event_id = ad_break_event_id p1 \<rparr>"
  have "custom_tags (hd (segments pl1'))
          = SCTE35_tag (encode_out ?m_out) # custom_tags (hd (segments pl1))"
    unfolding pl1' using out_marker by (rule insert_cue_out_tags)
  moreover have "custom_tags (last (segments pl2'))
          = custom_tags (last (segments pl2)) @ [SCTE35_tag (encode_in ?m_in), CUE_IN_tag]"
    unfolding pl2' using in_marker by (rule insert_cue_in_tags)
  moreover have "segmentation_type_id (encode_out ?m_out) = 0x34"
    and "segmentation_type_id (encode_in ?m_in) = 0x35"
    by (simp_all add: encode_out_def encode_in_def)
  moreover have "event_id (cue_marker (encode_out ?m_out)) = Some (py_int (id_clock c1))"
    by (simp add: encode_out_def)
  moreover have "ad_break_event_id p1 = event_id (cue_marker (encode_out ?m_out))"
    using ev by (simp add: encode_out_def)
  moreover have "event_id (cue_marker (encode_in ?m_in)) = event_id (cue_marker (encode_out ?m_out))"
    using ev by (simp add: encode_out_def encode_in_def)
  ultimately show ?thesis by (intro exI conjI)
qed

text \<open>The break of 30 seconds opened at time 300: a call at 310, and the call at 331.\<close>

lemma close_scenario_A:
  "marker_call (at_time 331, two_segments) (in_break_since 300 example_config)
     = (init_processor 331 example_config, two_segments_in)"
  by (simp add: marker_call_def process_playlist_for_markers_def init_processor_def
        example_config_def two_segments_def at_time_def insert_cue_in_def two_segments_in_def
        Let_def py_int_def in_break_since_def)

lemma wait_scenario_A:
  "marker_call (at_time 310, two_segments) (in_break_since 300 example_config)
     = (in_break_since 300 example_config, two_segments)"
  by (simp add: marker_call_def process_playlist_for_markers_def init_processor_def
        example_config_def at_time_def Let_def in_break_since_def)

theorem C3_cue_in_carries_event_id_of_cue_out_witness:
  "marker_call (at_time 300, two_segments) (init_processor 0 example_config)
       = (in_break_since 300 example_config, two_segments_out)
   \<and> \<not> in_ad_break (init_processor 0 example_config)
   \<and> in_ad_break (in_break_since 300 example_config)
   \<and> segments two_segments \<noteq> []
   \<and> list_all in_ad_break
        (marker_states [(at_time 310, two_segments)] (in_break_since 300 example_config))
   \<and> marker_call (at_time 331, two_segments)
        (marker_calls [(at_time 310, two_segments)] (in_break_since 300 example_config))
       = (init_processor 331 example_config, two_segments_in)
   \<and> \<not> in_ad_break (init_processor 331 example_config)
   \<and> (\<exists>cue_out cue_in.
           custom_tags (hd (segments two_segments_out))
             = SCTE35_tag cue_out # custom_tags (hd (segments two_segments))
         \<and> custom_tags (last (segments two_segments_in))
             = custom_tags (last (segments two_segments)) @ [SCTE35_tag cue_in, CUE_IN_tag]
         \<and> segmentation_type_id cue_out = 0x34
         \<and> segmentation_type_id cue_in = 0x35
         \<and> event_id (cue_marker cue_out) = Some (py_int (id_clock (at_time 300)))
         \<and> ad_break_event_id (in_break_since 300 example_config) = event_id (cue_marker cue_out)
         \<and> event_id (cue_marker cue_in) = event_id (cue_marker cue_out))"
proof -
  have a: "\<not> in_ad_break (init_processor 0 example_config)"
    and b: "in_ad_break (in_break_since 300 example_config)"
    and c: "segments two_segments \<noteq> []"
    and d: "\<not> in_ad_break (init_processor 331 example_config)"
    by (simp_all add: init_processor_def in_break_since_def two_segments_def)
  have e: "list_all in_ad_break
        (marker_states [(at_time 310, two_segments)] (in_break_since 300 example_config))"
    using b by (simp add: wait_scenario_A)
  have f: "marker_call (at_time 331, two_segments)
        (marker_calls [(at_time 310, two_segments)] (in_break_since 300 example_config))
       = (init_processor 331 example_config, two_segments_in)"
    by (simp add: wait_scenario_A close_scenario_A)
  from C3_cue_in_carries_event_id_of_cue_out [OF open_example a b c e f d c]
  show ?thesis using open_example a b c d e f by simp
qed

section \<open>Properties of the cycle\<close>

text \<open>
  C6. In a cycle whose fetch returns no playlist, the processor (and with it
  \<open>in_ad_break\<close>, \<open>ad_break_event_id\<close>, \<open>ad_break_start_time\<close> and
  \<open>next_marker_time\<close>) and the output directory are unchanged, no further step of
  the cycle runs, the worker is still running, and the loop goes on with the next
  cycle from the same processor and directory.
\<close>

theorem C6_failed_fetch_changes_nothing:
  assumes "fetch e = Fetch_none" and "running p" and "\<not> stop_event p"
  shows "cycle render e p d = \<lparr> proc = p, dir = d, steps_run = [], slept = Some 2 \<rparr>
       \<and> running (proc (cycle render e p d)) \<and> \<not> stop_event (proc (cycle render e p d))
       \<and> cycles render (e # rest) p d = cycles render rest p d"
  using assms by (simp add: cycle_def)

theorem C6_failed_fetch_changes_nothing_witness:
  "fetch failed_fetch_env = Fetch_none \<and> running running_processor
   \<and> \<not> stop_event running_processor
   \<and> cycle example_render failed_fetch_env running_processor scenario_B_dir
        = \<lparr> proc = running_processor, dir = scenario_B_dir, steps_run = [], slept = Some 2 \<rparr>
   \<and> cycles example_render [failed_fetch_env, good_env] running_processor scenario_B_dir
        = cycles example_render [good_env] running_processor scenario_B_dir"
proof -
  have a: "fetch failed_fetch_env = Fetch_none"
    and b: "running running_processor" and c: "\<not> stop_event running_processor"
    by (simp_all add: failed_fetch_env_def running_processor_def init_processor_def)
  from C6_failed_fetch_changes_nothing [OF a b c, of example_render scenario_B_dir "[good_env]"]
  show ?thesis using a b c by simp
qed

text \<open>A worker that is not running leaves the loop.\<close>

lemma cycles_stopped: "\<not> running p \<Longrightarrow> cycles render envs p d = (p, d)"
  by (cases envs) simp_all

text \<open>
  C7. When \<open>_save_playlist\<close> meets a PermissionError, from \<open>mkdir\<close> or from the
  write, the worker is stopped: \<open>running\<close> is false, the stop event is set, and the
  loop ends. When it meets any other exception the processor is unchanged, so a
  running worker keeps running.
\<close>

theorem C7_permission_denied_stops_worker:
  assumes "save_playlist render mk wr p pl d = (p', d')"
  shows "(mk = Io_denied \<or> (mk = Io_ok \<and> wr = Io_denied) \<longrightarrow>
            \<not> running p' \<and> stop_event p' \<and> cycles render rest p' d' = (p', d'))
       \<and> (mk = Io_failed \<or> (mk = Io_ok \<and> wr = Io_failed) \<longrightarrow> p' = p)"
proof -
  have denied: "mk = Io_denied \<or> (mk = Io_ok \<and> wr = Io_denied) \<longrightarrow>
            \<not> running p' \<and> stop_event p' \<and> cycles render rest p' d' = (p', d')"
  proof
    assume "mk = Io_denied \<or> (mk = Io_ok \<and> wr = Io_denied)"
    with assms have "p' = stop p"
      by (auto simp: save_playlist_def Let_def)
    then have "\<not> running p'" and "stop_event p'" by (simp_all add: stop_def)
    then show "\<not> running p' \<and> stop_event p' \<and> cycles render rest p' d' = (p', d')"
      by (simp add: cycles_stopped)
  qed
  have other: "mk = Io_failed \<or> (mk = Io_ok \<and> wr = Io_failed) \<longrightarrow> p' = p"
    using assms by (auto simp: save_playlist_def Let_def)
  from denied other show ?thesis by (rule conjI)
qed

theorem C7_permission_denied_stops_worker_witness:
  "save_playlist example_render Io_ok Io_denied running_processor three_segments scenario_B_dir
       = (stop running_processor, scenario_B_dir)
   \<and> \<not> running (stop running_processor) \<and> stop_event (stop running_processor)
   \<and> cycles example_render [good_env] (stop running_processor) scenario_B_dir
       = (stop running_processor, scenario_B_dir)
   \<and> save_playlist example_render Io_ok Io_failed running_processor three_segments scenario_B_dir
       = (running_processor, scenario_B_dir)
   \<and> running running_processor"
proof -
  have a: "save_playlist example_render Io_ok Io_denied running_processor three_segments scenario_B_dir
       = (stop running_processor, scenario_B_dir)"
    and b: "save_playlist example_render Io_ok Io_failed running_processor three_segments scenario_B_dir
       = (running_processor, scenario_B_dir)"
    by (simp_all add: save_playlist_def scenario_B_dir_def)
  have c: "running running_processor" by (simp add: running_processor_def)
  from C7_permission_denied_stops_worker [OF a, of "[good_env]"]
       C7_permission_denied_stops_worker [OF b, of "[good_env]"]
  show ?thesis using a b c by simp
qed

section \<open>Properties of the segment files\<close>

text \<open>
  What the pruning loop does to one name: its entry is as before, or it is gone, and
  then the name ends in \<open>.ts\<close>, is not referenced and was listed as a regular file.
\<close>

lemma prune_lookup:
  "map_of (prune cu keep items es) n = map_of es n
   \<or> (map_of (prune cu keep items es) n = None \<and> ends_with ''.ts'' n \<and> n \<notin> set keep
        \<and> (\<exists>b. (n, File b) \<in> set items))"
proof (induction items arbitrary: es)
  case Nil
  then show ?case by simp
next
  case (Cons item items)
  obtain m e where item: "item = (m, e)" by (cases item)
  show ?case
  proof (cases "is_file e \<and> ends_with ''.ts'' m \<and> m \<notin> set keep")
    case False
    then have "prune cu keep (item # items) es = prune cu keep items es"
      unfolding item by auto
    with Cons.IH [of es] show ?thesis by auto
  next
    case True
    then obtain b where e: "e = File b" by (cases e) auto
    show ?thesis
    proof (cases "cu m")
      case False
      with True have "prune cu keep (item # items) es = es"
        unfolding item by simp
      then show ?thesis by simp
    next
      case cu: True
      with True have step: "prune cu keep (item # items) es = prune cu keep items (AList.delete m es)"
        unfolding item by simp
      show ?thesis
      proof (cases "n = m")
        case True
        with Cons.IH [of "AList.delete m es"]
        have "map_of (prune cu keep items (AList.delete m es)) n = None"
          by (auto simp: delete_conv)
        with \<open>n = m\<close> \<open>is_file e \<and> ends_with ''.ts'' m \<and> m \<notin> set keep\<close> e item step
        show ?thesis by auto
      next
        case False
        with Cons.IH [of "AList.delete m es"] step show ?thesis by auto
      qed
    qed
  qed
qed

text \<open>
  C10. \<open>_cleanup_old_segments\<close> leaves every entry whose name does not end in
  \<open>.ts\<close> in place with its content, whatever the playlist references and whether or
  not the deletions succeed; \<open>playlist.m3u8\<close> is such an entry. In a directory, where
  names are distinct, an entry that disappears is a regular file whose name ends in
  \<open>.ts\<close> and that the playlist does not reference; every other entry is unchanged.
\<close>

theorem C10_cleanup_only_deletes_ts_files:
  "(\<not> ends_with ''.ts'' n \<longrightarrow>
       map_of (entries (cleanup_old_segments cu pl d)) n = map_of (entries d) n)
   \<and> (distinct (map fst (entries d)) \<longrightarrow>
         map_of (entries (cleanup_old_segments cu pl d)) n = map_of (entries d) n
       \<or> (map_of (entries (cleanup_old_segments cu pl d)) n = None
            \<and> ends_with ''.ts'' n \<and> n \<notin> set (current_segment_files pl)
            \<and> (\<exists>b. map_of (entries d) n = Some (File b))))
   \<and> dir_exists (cleanup_old_segments cu pl d) = dir_exists d
   \<and> dir_writable (cleanup_old_segments cu pl d) = dir_writable d"
proof -
  let ?es = "entries (cleanup_old_segments cu pl d)"
  have es: "?es = entries d
      \<or> ?es = prune cu (current_segment_files pl) (entries d) (entries d)"
    by (simp add: cleanup_old_segments_def)
  note look = prune_lookup [of cu "current_segment_files pl" "entries d" "entries d" n]
  have first: "\<not> ends_with ''.ts'' n \<longrightarrow> map_of ?es n = map_of (entries d) n"
    using es look by auto
  have second: "distinct (map fst (entries d)) \<longrightarrow>
         map_of ?es n = map_of (entries d) n
       \<or> (map_of ?es n = None
            \<and> ends_with ''.ts'' n \<and> n \<notin> set (current_segment_files pl)
            \<and> (\<exists>b. map_of (entries d) n = Some (File b)))"
    using es look by (auto dest: map_of_is_SomeI)
  have third: "dir_exists (cleanup_old_segments cu pl d) = dir_exists d
      \<and> dir_writable (cleanup_old_segments cu pl d) = dir_writable d"
    by (simp add: cleanup_old_segments_def)
  from first second third show ?thesis by (intro conjI) simp_all
qed

text \<open>The pruning of the example directory against the playlist b.ts, c.ts, d.ts.\<close>

lemma cleanup_scenario_B:
  "cleanup_old_segments (\<lambda>n. True) three_segments scenario_B_dir
     = scenario_B_dir\<lparr> entries := [(''playlist.m3u8'', File ''old''),
                                   (''b.ts'', File ''B''), (''c.ts'', File ''C'')] \<rparr>"
  by (simp add: cleanup_old_segments_def scenario_B_dir_def three_segments_def
        current_segment_files_def path_name_def path_parts_def ends_with_def)

theorem C10_cleanup_only_deletes_ts_files_witness:
  "\<not> ends_with ''.ts'' ''playlist.m3u8''
   \<and> map_of (entries (cleanup_old_segments (\<lambda>n. True) three_segments scenario_B_dir)) ''playlist.m3u8''
       = Some (File ''old'')
   \<and> distinct (map fst (entries scenario_B_dir))
   \<and> map_of (entries (cleanup_old_segments (\<lambda>n. True) three_segments scenario_B_dir)) ''a.ts'' = None
   \<and> ends_with ''.ts'' ''a.ts''
   \<and> map_of (entries scenario_B_dir) ''a.ts'' = Some (File ''A'')"
proof -
  have a: "\<not> ends_with ''.ts'' ''playlist.m3u8''" and b: "ends_with ''.ts'' ''a.ts''"
    by (simp_all add: ends_with_def)
  have c: "distinct (map fst (entries scenario_B_dir))"
    and d: "map_of (entries scenario_B_dir) ''a.ts'' = Some (File ''A'')"
    and e: "map_of (entries scenario_B_dir) ''playlist.m3u8'' = Some (File ''old'')"
    by (simp_all add: scenario_B_dir_def)
  have f: "map_of (entries (cleanup_old_segments (\<lambda>n. True) three_segments scenario_B_dir)) ''a.ts'' = None"
    by (simp add: cleanup_scenario_B)
  from C10_cleanup_only_deletes_ts_files
         [of "''playlist.m3u8''" "\<lambda>n. True" three_segments scenario_B_dir] a e
  have "map_of (entries (cleanup_old_segments (\<lambda>n. True) three_segments scenario_B_dir)) ''playlist.m3u8''
       = Some (File ''old'')"
    by simp
  with a b c d f show ?thesis by simp
qed

section \<open>Properties of the registry\<close>

text \<open>Keys of an association list, and the three dicts staying in step.\<close>

lemma keys_delete: "fst ` set (AList.delete k al) = fst ` set al - {k}"
  by (auto simp: AList.delete_eq)

lemma map_of_keys: "(map_of al k \<noteq> None) = (k \<in> fst ` set al)"
  by (simp add: map_of_eq_None_iff)


lemma in_step_keys:
  assumes "in_step m"
  shows "fst ` set (configs m) = fst ` set (streams m)"
    and "fst ` set (threads m) = fst ` set (streams m)"
proof -
  from assms have "fst ` set (streams m) = fst ` set (configs m)"
    unfolding in_step_def by (rule conjunct1)
  then show "fst ` set (configs m) = fst ` set (streams m)" by (rule sym)
  from assms have "fst ` set (streams m) = fst ` set (threads m)"
    unfolding in_step_def by (rule conjunct2)
  then show "fst ` set (threads m) = fst ` set (streams m)" by (rule sym)
qed





text \<open>
  The outcomes of \<open>remove_stream\<close>: an unknown id, and a present id of a registry
  whose dicts are in step, with the whole state after the call.
\<close>

lemma remove_stream_unknown:
  "map_of (streams (manager w)) sid = None \<Longrightarrow> remove_stream io needed sid w = Inr (False, w, 0)"
  by (simp add: remove_stream_def Let_def)


lemma remove_stream_present:
  assumes "in_step (manager w)" and "map_of (streams (manager w)) sid = Some r"
  shows "remove_stream Io_ok needed sid w =
           Inr (True,
             w\<lparr> store := (store w)(r := map_option stop (store w r)),
                manager := (manager w)
                  \<lparr> streams := AList.delete sid (streams (manager w)),
                    configs := AList.delete sid (configs (manager w)),
                    threads := AList.delete sid (threads (manager w)) \<rparr>,
                config_file := Some (map snd (AList.delete sid (configs (manager w)))) \<rparr>,
             fst (thread_join 10 needed))"
    and "io \<noteq> Io_ok \<Longrightarrow> remove_stream io needed sid w =
           Inl (OSError,
             w\<lparr> store := (store w)(r := map_option stop (store w r)),
                manager := (manager w)
                  \<lparr> streams := AList.delete sid (streams (manager w)),
                    configs := AList.delete sid (configs (manager w)),
                    threads := AList.delete sid (threads (manager w)) \<rparr> \<rparr>)"
proof -
  from assms(2) have "sid \<in> fst ` set (streams (manager w))"
    using map_of_keys [of "streams (manager w)" sid] by simp
  then have "sid \<in> fst ` set (configs (manager w))"
    and "sid \<in> fst ` set (threads (manager w))"
    by (simp_all add: in_step_keys [OF assms(1)])
  then obtain c th where c: "map_of (configs (manager w)) sid = Some c"
    and th: "map_of (threads (manager w)) sid = Some th"
    using map_of_keys [of "configs (manager w)" sid] map_of_keys [of "threads (manager w)" sid]
    by auto
  show "remove_stream Io_ok needed sid w =
           Inr (True,
             w\<lparr> store := (store w)(r := map_option stop (store w r)),
                manager := (manager w)
                  \<lparr> streams := AList.delete sid (streams (manager w)),
                    configs := AList.delete sid (configs (manager w)),
                    threads := AList.delete sid (threads (manager w)) \<rparr>,
                config_file := Some (map snd (AList.delete sid (configs (manager w)))) \<rparr>,
             fst (thread_join 10 needed))"
    by (simp add: remove_stream_def Let_def assms(2) c th save_streams_config_def
          case_prod_beta)
  show "remove_stream io needed sid w =
           Inl (OSError,
             w\<lparr> store := (store w)(r := map_option stop (store w r)),
                manager := (manager w)
                  \<lparr> streams := AList.delete sid (streams (manager w)),
                    configs := AList.delete sid (configs (manager w)),
                    threads := AList.delete sid (threads (manager w)) \<rparr> \<rparr>)"
    if "io \<noteq> Io_ok"
    using that
    by (simp add: remove_stream_def Let_def assms(2) c th save_streams_config_def
          case_prod_beta split: io_result.splits)
qed

lemma in_step_remove_stream:
  assumes "in_step (manager w)"
  shows "remove_stream io needed sid w = Inr (ok, w', waited) \<Longrightarrow> in_step (manager w')"
    and "remove_stream io needed sid w = Inl (e, w') \<Longrightarrow> in_step (manager w')"
proof -
  have "in_step (manager w')"
    if "remove_stream io needed sid w = Inr (ok, w', waited) \<or> remove_stream io needed sid w = Inl (e, w')"
  proof (cases "map_of (streams (manager w)) sid")
    case None
    with that assms show ?thesis by (auto simp: remove_stream_unknown)
  next
    case (Some r)
    show ?thesis
    proof (cases "io = Io_ok")
      case True
      with that remove_stream_present(1) [OF assms Some, of needed]
      have "manager w' = (manager w)
                  \<lparr> streams := AList.delete sid (streams (manager w)),
                    configs := AList.delete sid (configs (manager w)),
                    threads := AList.delete sid (threads (manager w)) \<rparr>"
        by auto
      then show ?thesis by (simp add: in_step_def keys_delete in_step_keys [OF assms])
    next
      case False
      with that remove_stream_present(2) [OF assms Some, of io needed]
      have "manager w' = (manager w)
                  \<lparr> streams := AList.delete sid (streams (manager w)),
                    configs := AList.delete sid (configs (manager w)),
                    threads := AList.delete sid (threads (manager w)) \<rparr>"
        by auto
      then show ?thesis by (simp add: in_step_def keys_delete in_step_keys [OF assms])
    qed
  qed
  then show "remove_stream io needed sid w = Inr (ok, w', waited) \<Longrightarrow> in_step (manager w')"
    and "remove_stream io needed sid w = Inl (e, w') \<Longrightarrow> in_step (manager w')"
    by blast+
qed












section \<open>Properties of a reconciliation pass\<close>

text \<open>
  When every scheduled transfer completes, each of them counts, each scheduled name
  holds a regular file afterwards, the other names are as before, and the names
  stay distinct.
\<close>

lemma transfer_ok_iff:
  "(case t of Transfer_ok body \<Rightarrow> True | Transfer_failed \<Rightarrow> False | Transfer_cut tmp part \<Rightarrow> False)
     = (\<exists>body. t = Transfer_ok body)"
  by (cases t) simp_all

lemma download_all_ok:
  assumes "list_all (\<lambda>s. \<exists>body. get (uri s) = Transfer_ok body) segs"
  shows "snd (download_all get segs es) = length segs"
    and "n \<notin> segment_name ` set segs \<Longrightarrow> map_of (fst (download_all get segs es)) n = map_of es n"
    and "n \<in> segment_name ` set segs \<Longrightarrow> \<exists>body. map_of (fst (download_all get segs es)) n = Some (File body)"
    and "distinct (map fst es) \<Longrightarrow> distinct (map fst (fst (download_all get segs es)))"
  using assms
proof (induction segs arbitrary: es)
  case Nil
  { case 1 show ?case by simp }
  { case 2 show ?case by simp }
  { case 3 then show ?case by simp }
  { case 4 then show ?case by simp }
next
  case (Cons s segs)
  { case 1
    then obtain body where b: "get (uri s) = Transfer_ok body"
      and rest: "list_all (\<lambda>s. \<exists>body. get (uri s) = Transfer_ok body) segs" by auto
    from Cons.IH(1) [OF rest, of "AList.update (segment_name s) (File body) es"] b
    show ?case by (simp add: case_prod_beta) }
  { case 2
    then obtain body where b: "get (uri s) = Transfer_ok body"
      and rest: "list_all (\<lambda>s. \<exists>body. get (uri s) = Transfer_ok body) segs" by auto
    from 2(1) have n: "n \<noteq> segment_name s" "n \<notin> segment_name ` set segs" by auto
    from Cons.IH(2) [OF n(2) rest, of "AList.update (segment_name s) (File body) es"] b n(1)
    show ?case by (simp add: case_prod_beta update_conv') }
  { case 3
    then obtain body where b: "get (uri s) = Transfer_ok body"
      and rest: "list_all (\<lambda>s. \<exists>body. get (uri s) = Transfer_ok body) segs" by auto
    show ?case
    proof (cases "n \<in> segment_name ` set segs")
      case True
      from Cons.IH(3) [OF True rest, of "AList.update (segment_name s) (File body) es"] b
      show ?thesis by (simp add: case_prod_beta)
    next
      case False
      with 3(1) have "n = segment_name s" by auto
      with Cons.IH(2) [OF False rest, of "AList.update (segment_name s) (File body) es"] b
      show ?thesis by (simp add: case_prod_beta update_conv')
    qed }
  { case 4
    then obtain body where b: "get (uri s) = Transfer_ok body"
      and rest: "list_all (\<lambda>s. \<exists>body. get (uri s) = Transfer_ok body) segs" by auto
    from 4(1) have "distinct (map fst (AList.update (segment_name s) (File body) es))"
      by (rule distinct_update)
    from Cons.IH(4) [OF this rest] b
    show ?case by (simp add: case_prod_beta) }
qed

text \<open>The pruning loop when no deletion fails.\<close>

lemma prune_all_lookup:
  assumes "\<forall>n. cu n"
  shows "map_of (prune cu keep items es) n =
           (if (\<exists>b. (n, File b) \<in> set items) \<and> ends_with ''.ts'' n \<and> n \<notin> set keep
            then None else map_of es n)"
proof (induction items arbitrary: es)
  case Nil
  then show ?case by simp
next
  case (Cons item items)
  obtain m e where item: "item = (m, e)" by (cases item)
  show ?case
  proof (cases "is_file e \<and> ends_with ''.ts'' m \<and> m \<notin> set keep")
    case True
    then obtain b where e: "e = File b" by (cases e) auto
    from True assms have "prune cu keep (item # items) es = prune cu keep items (AList.delete m es)"
      unfolding item by simp
    with Cons.IH [of "AList.delete m es"] True show ?thesis
      unfolding item e by (auto simp: delete_conv')
  next
    case False
    then have "prune cu keep (item # items) es = prune cu keep items es"
      unfolding item by auto
    with Cons.IH [of es] False show ?thesis
      unfolding item by (cases e) auto
  qed
qed

lemma prune_distinct:
  "distinct (map fst es) \<Longrightarrow> distinct (map fst (prune cu keep items es))"
proof (induction items arbitrary: es)
  case Nil
  then show ?case by simp
next
  case (Cons item items)
  obtain m e where item: "item = (m, e)" by (cases item)
  from Cons.prems have "distinct (map fst (AList.delete m es))" by (rule distinct_delete)
  with Cons.IH Cons.prems show ?case unfolding item by simp
qed

text \<open>The regular \<open>.ts\<close> files of a directory, by lookup.\<close>

lemma ts_files_iff:
  assumes "distinct (map fst (entries d))"
  shows "(n \<in> ts_files d) = ((\<exists>b. map_of (entries d) n = Some (File b)) \<and> ends_with ''.ts'' n)"
proof -
  have "(n \<in> ts_files d) = (\<exists>e. (n, e) \<in> set (entries d) \<and> is_file e \<and> ends_with ''.ts'' n)"
    by (auto simp: ts_files_def image_iff)
  also have "\<dots> = (\<exists>e. map_of (entries d) n = Some e \<and> is_file e \<and> ends_with ''.ts'' n)"
    using assms by simp
  also have "\<dots> = ((\<exists>b. map_of (entries d) n = Some (File b)) \<and> ends_with ''.ts'' n)"
  proof
    assume "\<exists>e. map_of (entries d) n = Some e \<and> is_file e \<and> ends_with ''.ts'' n"
    then obtain e where e: "map_of (entries d) n = Some e" "is_file e" "ends_with ''.ts'' n"
      by blast
    then obtain b where "e = File b" by (cases e) auto
    with e show "(\<exists>b. map_of (entries d) n = Some (File b)) \<and> ends_with ''.ts'' n" by simp
  next
    assume "(\<exists>b. map_of (entries d) n = Some (File b)) \<and> ends_with ''.ts'' n"
    then show "\<exists>e. map_of (entries d) n = Some e \<and> is_file e \<and> ends_with ''.ts'' n" by auto
  qed
  finally show ?thesis .
qed

lemma ends_with_ts_proper: "ends_with ''.ts'' n \<Longrightarrow> n \<noteq> [] \<and> n \<noteq> ''..''"
  by (auto simp: ends_with_def)


lemma names_to_download:
  "segment_name ` set (segments_to_download d pl)
     = {n \<in> set (current_segment_files pl). \<not> path_exists d n}"
  by (auto simp: segments_to_download_def current_segment_files_def)

text \<open>
  C4, as amended. Take an output directory that exists and is writable, and a pass in
  which every scheduled download and every deletion succeeds. Afterwards the regular
  files whose name ends in \<open>.ts\<close> are exactly the referenced names that end in
  \<open>.ts\<close> and were not subdirectories; a referenced name that was present is not
  scheduled for download and its entry is unchanged; a referenced name that was
  absent is scheduled and holds a regular file; a regular \<open>.ts\<close> file that is not
  referenced is gone; and the counter of processed segments grows by the number of
  scheduled downloads.
\<close>

theorem C4_reconcile_ts_files:
  assumes pass: "reconcile get cu p pl d = (p', d')"
      and dir_ok: "dir_exists d" "dir_writable d" "distinct (map fst (entries d))"
      and got: "downloads_succeed get d pl"
      and unlinked: "\<forall>n. cu n"
  shows "ts_files d' = {n \<in> set (current_segment_files pl).
                          ends_with ''.ts'' n \<and> map_of (entries d) n \<noteq> Some Dir}
       \<and> (n \<in> set (current_segment_files pl) \<and> path_exists d n \<longrightarrow>
             n \<notin> segment_name ` set (segments_to_download d pl)
           \<and> map_of (entries d') n = map_of (entries d) n)
       \<and> (n \<in> set (current_segment_files pl) \<and> \<not> path_exists d n \<longrightarrow>
             n \<in> segment_name ` set (segments_to_download d pl)
           \<and> (\<exists>body. map_of (entries d') n = Some (File body)))
       \<and> (n \<in> ts_files d \<and> n \<notin> set (current_segment_files pl) \<longrightarrow>
             map_of (entries d') n = None)
       \<and> segments_processed p' = segments_processed p + length (segments_to_download d pl)"
proof -
  let ?names = "current_segment_files pl"
  let ?todo = "segments_to_download d pl"
  let ?es1 = "fst (download_all get ?todo (entries d))"
  from got have ok: "list_all (\<lambda>s. \<exists>body. get (uri s) = Transfer_ok body) ?todo"
    by (simp add: downloads_succeed_def transfer_ok_iff)
  note dl = download_all_ok [OF ok, where es = "entries d"]
  from pass dir_ok(1,2)
  have p': "p' = p\<lparr> segments_processed := segments_processed p + snd (download_all get ?todo (entries d)) \<rparr>"
    and d': "d' = d\<lparr> entries := prune cu ?names ?es1 ?es1 \<rparr>"
    by (auto simp: reconcile_def process_segments_def cleanup_old_segments_def case_prod_beta)
  have dist1: "distinct (map fst ?es1)" using dir_ok(3) by (rule dl(4))
  have dist': "distinct (map fst (entries d'))" unfolding d' using dist1 by (simp add: prune_distinct)
  have file1: "(\<exists>b. (m, File b) \<in> set ?es1) = (\<exists>b. map_of ?es1 m = Some (File b))" for m
    using dist1 by simp
  have look': "map_of (entries d') m =
      (if (\<exists>b. map_of ?es1 m = Some (File b)) \<and> ends_with ''.ts'' m \<and> m \<notin> set ?names
       then None else map_of ?es1 m)" for m
    unfolding d' by (simp add: prune_all_lookup [OF unlinked] file1)
  have todo: "(m \<in> segment_name ` set ?todo) = (m \<in> set ?names \<and> \<not> path_exists d m)" for m
    unfolding names_to_download by simp
  have look1: "map_of ?es1 m = map_of (entries d) m" if "\<not> (m \<in> set ?names \<and> \<not> path_exists d m)" for m
    using that dl(2) [where n = m] todo [of m] by blast
  have new1: "\<exists>body. map_of ?es1 m = Some (File body)" if "m \<in> set ?names" "\<not> path_exists d m" for m
    using that dl(3) [where n = m] todo [of m] by blast
  have absent: "map_of (entries d) m = None" if "\<not> path_exists d m" for m
    using that dir_ok(1) by (simp add: path_exists_def)
  have present: "path_exists d m" if "map_of (entries d) m \<noteq> None" for m
    using that dir_ok(1) by (simp add: path_exists_def)
  have first: "ts_files d' = {n \<in> set ?names. ends_with ''.ts'' n \<and> map_of (entries d) n \<noteq> Some Dir}"
  proof (rule set_eqI)
    fix m
    show "(m \<in> ts_files d') = (m \<in> {n \<in> set ?names. ends_with ''.ts'' n \<and> map_of (entries d) n \<noteq> Some Dir})"
    proof (cases "m \<in> set ?names")
      case False
      then have "\<not> (\<exists>b. map_of (entries d') m = Some (File b) \<and> ends_with ''.ts'' m)"
        by (auto simp: look')
      with False show ?thesis by (auto simp: ts_files_iff [OF dist'])
    next
      case True
      then have same: "map_of (entries d') m = map_of ?es1 m" by (simp add: look')
      show ?thesis
      proof (cases "path_exists d m")
        case False
        from new1 [OF True False] absent [OF False] True show ?thesis
          by (auto simp: ts_files_iff [OF dist'] same)
      next
        case exists: True
        then have old: "map_of ?es1 m = map_of (entries d) m" by (simp add: look1)
        show ?thesis
        proof (cases "ends_with ''.ts'' m")
          case False
          then show ?thesis by (simp add: ts_files_iff [OF dist'])
        next
          case ts: True
          with exists have "map_of (entries d) m \<noteq> None"
            using ends_with_ts_proper [OF ts] by (simp add: path_exists_def)
          then obtain e where e: "map_of (entries d) m = Some e" by blast
          show ?thesis using True ts e
            by (cases e) (simp_all add: ts_files_iff [OF dist'] same old)
        qed
      qed
    qed
  qed
  have second: "n \<in> set ?names \<and> path_exists d n \<longrightarrow>
             n \<notin> segment_name ` set ?todo \<and> map_of (entries d') n = map_of (entries d) n"
    by (simp add: todo look' look1)
  have third: "n \<in> set ?names \<and> \<not> path_exists d n \<longrightarrow>
             n \<in> segment_name ` set ?todo \<and> (\<exists>body. map_of (entries d') n = Some (File body))"
    using new1 [of n] by (simp add: todo look')
  have fourth: "n \<in> ts_files d \<and> n \<notin> set ?names \<longrightarrow> map_of (entries d') n = None"
  proof
    assume a: "n \<in> ts_files d \<and> n \<notin> set ?names"
    then obtain b where b: "map_of (entries d) n = Some (File b)" and ts: "ends_with ''.ts'' n"
      by (auto simp: ts_files_iff [OF dir_ok(3)])
    from a have "map_of ?es1 n = map_of (entries d) n" by (simp add: look1)
    with a b ts show "map_of (entries d') n = None" by (simp add: look')
  qed
  have fifth: "segments_processed p' = segments_processed p + length ?todo"
    unfolding p' by (simp add: dl(1))
  from first second third fourth fifth show ?thesis by (intro conjI)
qed


text \<open>The pass over the empty directory against the playlist with a query string.\<close>

lemma tokenized_name:
  "current_segment_files tokenized_playlist = [''seg1.ts?token=abc'']"
  by (simp add: current_segment_files_def tokenized_playlist_def path_name_def path_parts_def)

lemma tokenized_todo:
  "segments_to_download empty_dir tokenized_playlist = segments tokenized_playlist"
  using tokenized_name
  by (simp add: segments_to_download_def current_segment_files_def tokenized_playlist_def
        path_exists_def empty_dir_def)

lemma reconcile_tokenized:
  "reconcile (\<lambda>u. Transfer_ok u) (\<lambda>n. True) running_processor tokenized_playlist empty_dir
     = (running_processor\<lparr> segments_processed := 1 \<rparr>,
        empty_dir\<lparr> entries := [(''seg1.ts?token=abc'',
                                  File ''http://origin/live/seg1.ts?token=abc'')] \<rparr>)"
proof -
  note todo = tokenized_todo
  have name: "path_name ''http://origin/live/seg1.ts?token=abc'' = ''seg1.ts?token=abc''"
    using tokenized_name by (simp add: current_segment_files_def tokenized_playlist_def)
  have down: "process_segments (\<lambda>u. Transfer_ok u) running_processor tokenized_playlist empty_dir
     = (running_processor\<lparr> segments_processed := 1 \<rparr>,
        empty_dir\<lparr> entries := [(''seg1.ts?token=abc'',
                                  File ''http://origin/live/seg1.ts?token=abc'')] \<rparr>)"
    unfolding process_segments_def todo
    by (simp add: tokenized_playlist_def name empty_dir_def running_processor_def
          init_processor_def)
  show ?thesis
    unfolding reconcile_def down
    by (simp add: cleanup_old_segments_def empty_dir_def tokenized_name ends_with_def)
qed

text \<open>
  C4, as stated, fails. The claim equates the \<open>.ts\<close> files of the directory with the
  referenced names. For a segment \<open>seg1.ts?token=abc\<close> the file is stored under that
  name, which does not end in \<open>.ts\<close>: after a pass in which the download succeeds the
  directory holds no \<open>.ts\<close> file, while the playlist references one name.
\<close>

theorem C4_ts_files_equal_referenced_counterexample:
  "dir_exists empty_dir \<and> dir_writable empty_dir
   \<and> downloads_succeed (\<lambda>u. Transfer_ok u) empty_dir tokenized_playlist
   \<and> set (current_segment_files tokenized_playlist) = {''seg1.ts?token=abc''}
   \<and> ts_files (snd (reconcile (\<lambda>u. Transfer_ok u) (\<lambda>n. True) running_processor
                      tokenized_playlist empty_dir)) = {}
   \<and> ts_files (snd (reconcile (\<lambda>u. Transfer_ok u) (\<lambda>n. True) running_processor
                      tokenized_playlist empty_dir))
       \<noteq> set (current_segment_files tokenized_playlist)"
proof -
  have a: "dir_exists empty_dir" and b: "dir_writable empty_dir"
    by (simp_all add: empty_dir_def)
  have c: "downloads_succeed (\<lambda>u. Transfer_ok u) empty_dir tokenized_playlist"
    unfolding downloads_succeed_def tokenized_todo by (simp add: tokenized_playlist_def)
  have d: "set (current_segment_files tokenized_playlist) = {''seg1.ts?token=abc''}"
    by (simp add: tokenized_name)
  have e: "ts_files (snd (reconcile (\<lambda>u. Transfer_ok u) (\<lambda>n. True) running_processor
                      tokenized_playlist empty_dir)) = {}"
    unfolding reconcile_tokenized by (simp add: ts_files_def ends_with_def)
  from a b c d e show ?thesis by simp
qed

text \<open>
  The pass over the directory a.ts, b.ts, c.ts against the playlist b.ts, c.ts, d.ts.
\<close>

lemma scenario_B_names: "current_segment_files three_segments = [''b.ts'', ''c.ts'', ''d.ts'']"
  by (simp add: current_segment_files_def three_segments_def path_name_def path_parts_def)

lemma scenario_B_todo:
  "segments_to_download scenario_B_dir three_segments = [\<lparr> uri = ''d.ts'', custom_tags = [] \<rparr>]"
  using scenario_B_names
  by (simp add: segments_to_download_def current_segment_files_def three_segments_def
        path_exists_def scenario_B_dir_def)

lemma reconcile_scenario_B:
  "reconcile (\<lambda>u. Transfer_ok u) (\<lambda>n. True) running_processor three_segments scenario_B_dir
     = (running_processor\<lparr> segments_processed := 1 \<rparr>,
        scenario_B_dir\<lparr> entries := [(''playlist.m3u8'', File ''old''), (''b.ts'', File ''B''),
                                      (''c.ts'', File ''C''), (''d.ts'', File ''d.ts'')] \<rparr>)"
proof -
  have name: "path_name ''d.ts'' = ''d.ts''"
    by (simp add: path_name_def path_parts_def)
  have down: "process_segments (\<lambda>u. Transfer_ok u) running_processor three_segments scenario_B_dir
     = (running_processor\<lparr> segments_processed := 1 \<rparr>,
        scenario_B_dir\<lparr> entries := [(''playlist.m3u8'', File ''old''), (''a.ts'', File ''A''),
              (''b.ts'', File ''B''), (''c.ts'', File ''C''), (''d.ts'', File ''d.ts'')] \<rparr>)"
    unfolding process_segments_def scenario_B_todo
    by (simp add: name scenario_B_dir_def running_processor_def init_processor_def)
  show ?thesis
    unfolding reconcile_def down
    by (simp add: cleanup_old_segments_def scenario_B_dir_def scenario_B_names ends_with_def)
qed

theorem C4_reconcile_ts_files_witness:
  "reconcile (\<lambda>u. Transfer_ok u) (\<lambda>n. True) running_processor three_segments scenario_B_dir
     = (running_processor\<lparr> segments_processed := 1 \<rparr>,
        scenario_B_dir\<lparr> entries := [(''playlist.m3u8'', File ''old''), (''b.ts'', File ''B''),
                                      (''c.ts'', File ''C''), (''d.ts'', File ''d.ts'')] \<rparr>)
   \<and> dir_exists scenario_B_dir \<and> dir_writable scenario_B_dir
   \<and> distinct (map fst (entries scenario_B_dir))
   \<and> downloads_succeed (\<lambda>u. Transfer_ok u) scenario_B_dir three_segments
   \<and> (\<forall>n. (\<lambda>n. True) n)
   \<and> ts_files (scenario_B_dir\<lparr> entries := [(''playlist.m3u8'', File ''old''), (''b.ts'', File ''B''),
                                      (''c.ts'', File ''C''), (''d.ts'', File ''d.ts'')] \<rparr>)
       = {''b.ts'', ''c.ts'', ''d.ts''}
   \<and> ''a.ts'' \<in> ts_files scenario_B_dir
   \<and> ''a.ts'' \<notin> set (current_segment_files three_segments)
   \<and> map_of (entries (scenario_B_dir\<lparr> entries := [(''playlist.m3u8'', File ''old''),
          (''b.ts'', File ''B''), (''c.ts'', File ''C''), (''d.ts'', File ''d.ts'')] \<rparr>)) ''a.ts'' = None
   \<and> segments_processed (running_processor\<lparr> segments_processed := 1 \<rparr>)
       = segments_processed running_processor
         + length (segments_to_download scenario_B_dir three_segments)"
proof -
  have a: "dir_exists scenario_B_dir" and b: "dir_writable scenario_B_dir"
    and c: "distinct (map fst (entries scenario_B_dir))"
    by (simp_all add: scenario_B_dir_def)
  have d: "downloads_succeed (\<lambda>u. Transfer_ok u) scenario_B_dir three_segments"
    by (simp add: downloads_succeed_def scenario_B_todo)
  have e: "\<forall>n. (\<lambda>n. True) n" by simp
  have f: "''a.ts'' \<in> ts_files scenario_B_dir"
    and g: "''a.ts'' \<notin> set (current_segment_files three_segments)"
    by (simp_all add: ts_files_def scenario_B_dir_def ends_with_def scenario_B_names)
  have h: "{n \<in> set (current_segment_files three_segments).
              ends_with ''.ts'' n \<and> map_of (entries scenario_B_dir) n \<noteq> Some Dir}
            = {''b.ts'', ''c.ts'', ''d.ts''}"
    by (auto simp: scenario_B_names scenario_B_dir_def ends_with_def)
  from C4_reconcile_ts_files [OF reconcile_scenario_B a b c d e, of "''a.ts''"] f g
  show ?thesis using a b c d reconcile_scenario_B unfolding h by simp
qed

end
